theory Spec2Isabelle
  imports Main "HOL-Library.AList"
begin

section \<open>JavaScript values\<close>

text \<open>
  The payloads of the protocol (\<^verbatim>\<open>data?: any\<close>, the records and nodes of the loader, the
  messages built by \<^verbatim>\<open>reply\<close>) are untyped in the source. They are modelled as JavaScript
  values; an object is the list of its own enumerable properties in insertion order.
  A \<^verbatim>\<open>number\<close> is approximated by an integer (correlation ids and key indices are
  whole numbers).
\<close>

datatype jsval =
    JUndefined
  | JNull
  | JBool bool
  | JNum int
  | JStr string
  | JArr "jsval list"
  | JObj "(string \<times> jsval) list"

type_synonym jsobj = "(string \<times> jsval) list"

text \<open>The truthiness test of \<^verbatim>\<open>if (v)\<close>, \<^verbatim>\<open>!v\<close> and \<^verbatim>\<open>v || d\<close>.\<close>

fun truthy :: "jsval \<Rightarrow> bool" where
  "truthy JUndefined = False"
| "truthy JNull = False"
| "truthy (JBool b) = b"
| "truthy (JNum n) = (n \<noteq> 0)"
| "truthy (JStr s) = (s \<noteq> [])"
| "truthy (JArr xs) = True"
| "truthy (JObj ps) = True"

text \<open>An optional string or number: absent is \<^verbatim>\<open>undefined\<close>.\<close>

definition opt_str :: "string option \<Rightarrow> jsval" where
  "opt_str x = (case x of None \<Rightarrow> JUndefined | Some s \<Rightarrow> JStr s)"

definition opt_num :: "int option \<Rightarrow> jsval" where
  "opt_num x = (case x of None \<Rightarrow> JUndefined | Some n \<Rightarrow> JNum n)"

text \<open>
  Optional chaining \<^verbatim>\<open>v?.k\<close> for a property name \<open>k\<close> that no built-in prototype
  defines (the source reads \<^verbatim>\<open>filepath\<close>, \<^verbatim>\<open>meta\<close>, \<^verbatim>\<open>namespace\<close> and \<^verbatim>\<open>key\<close>): the own
  property of an object, \<^verbatim>\<open>undefined\<close> otherwise.
\<close>

definition opt_get :: "jsval \<Rightarrow> string \<Rightarrow> jsval" where
  "opt_get v k =
     (case v of
        JObj ps \<Rightarrow> (case map_of ps k of Some x \<Rightarrow> x | None \<Rightarrow> JUndefined)
      | _ \<Rightarrow> JUndefined)"

text \<open>The decimal name of an array index, as \<^verbatim>\<open>ToString\<close> gives it.\<close>

definition digit_char :: "nat \<Rightarrow> char" where
  "digit_char d = ''0123456789'' ! d"

fun string_of_nat :: "nat \<Rightarrow> string" where
  "string_of_nat n =
     (if n < 10 then [digit_char n]
      else string_of_nat (n div 10) @ [digit_char (n mod 10)])"

declare string_of_nat.simps [simp del]

text \<open>
  Object spread \<^verbatim>\<open>{...v}\<close>: the own enumerable properties of \<open>v\<close>. An array spreads to
  its elements under their index names, a string to its characters, \<^verbatim>\<open>undefined\<close>,
  \<^verbatim>\<open>null\<close>, booleans and numbers to nothing.
\<close>

definition spread :: "jsval \<Rightarrow> jsobj" where
  "spread v =
     (case v of
        JObj ps \<Rightarrow> ps
      | JArr xs \<Rightarrow> zip (map string_of_nat [0..<length xs]) xs
      | JStr s \<Rightarrow> zip (map string_of_nat [0..<length s]) (map (\<lambda>c. JStr [c]) s)
      | _ \<Rightarrow> [])"

text \<open>
  Writing the properties \<open>src\<close> into the object \<open>obj\<close>, later ones overriding earlier
  ones of the same name: what an object literal does with the properties after a spread.
\<close>

definition assign :: "jsobj \<Rightarrow> jsobj \<Rightarrow> jsobj" where
  "assign obj src = fold (\<lambda>(k, v). AList.update k v) src obj"

section \<open>Messages\<close>

text \<open>
  The interface \<^verbatim>\<open>Message\<close>. The fields \<^verbatim>\<open>keypath\<close>, \<^verbatim>\<open>locale\<close> and \<^verbatim>\<open>value\<close> are the part
  that \<^verbatim>\<open>setRecords\<close> destructures from each of its items; a message extends that part, so
  that \<^verbatim>\<open>setRecords([message])\<close> is written as in the source. The required \<^verbatim>\<open>type\<close> is
  \<open>m_type\<close>, the optional \<^verbatim>\<open>_id\<close> is \<open>m_id\<close>; an absent \<^verbatim>\<open>data\<close> is \<open>JUndefined\<close>, an absent
  \<^verbatim>\<open>items\<close> is \<open>None\<close>.
\<close>

record item =
  m_keypath :: "string option"
  m_locale :: "string option"
  m_value :: "string option"

record message = item +
  m_type :: string
  m_id :: "int option"
  m_route :: "string option"
  m_data :: jsval
  m_commentId :: "string option"
  m_items :: "item list option"

text \<open>What \<^verbatim>\<open>setRecords\<close> hands to \<^verbatim>\<open>loader.write\<close> for one item.\<close>

record pending = item +
  filepath :: jsval
  namespace :: jsval

section \<open>Collaborators\<close>

text \<open>
  Every call that leaves the component for its effect is recorded, in order: the
  injected transport \<^verbatim>\<open>_postMessage\<close>, \<^verbatim>\<open>loader.write\<close>, \<^verbatim>\<open>TranslateKeys\<close>, the operations of
  \<^verbatim>\<open>Global.reviews\<close> and \<^verbatim>\<open>commands.executeCommand\<close>.
\<close>

datatype call =
    Transport jsobj
  | LoaderWrite "pending list"
  | TranslateKeys jsval
  | PromptEditDescription "string option"
  | AddComment "string option" "string option" jsval
  | EditComment "string option" "string option" jsval
  | ResolveComment "string option" "string option" "string option"
  | ApplySuggestion "string option" "string option" "string option"
  | ExecuteCommand string "string list"
  | ApplyTranslationCandidate "string option" "string option"
  | PromptEditTranslation "string option" "string option"
  | DiscardTranslationCandidate "string option" "string option"

text \<open>What the promise of the extension hook settles to.\<close>

datatype hook_outcome = HookResolves "bool option" | HookRejects

record document =
  languageId :: string
  fsPath :: string

text \<open>
  The collaborators, taken as parameters: the constructor's \<^verbatim>\<open>extendHandler\<close> and
  \<^verbatim>\<open>options.extendConfig\<close>, the answers of \<^verbatim>\<open>CurrentFile.loader\<close> (its lookups are called with
  the create-if-missing flag \<^verbatim>\<open>true\<close>, and answer \<^verbatim>\<open>undefined\<close> or an object),
  \<^verbatim>\<open>Global\<close>, \<^verbatim>\<open>Config\<close>, \<^verbatim>\<open>KeyDetector\<close>, \<^verbatim>\<open>window\<close> and \<^verbatim>\<open>i18n\<close>, and the constants \<^verbatim>\<open>EXT_ID\<close> and
  \<^verbatim>\<open>Commands.open_editor\<close>. The lookups are read as functions of their arguments and are
  taken to return normally. \<open>loader_write\<close> tells whether the promise of
  \<^verbatim>\<open>loader.write\<close> resolves; \<open>loader_locales\<close> is \<^verbatim>\<open>Global.loader?.locales\<close>, \<open>None\<close> when it
  is falsy.
\<close>

record env =
  extendHandler :: "(message \<Rightarrow> hook_outcome) option"
  extendConfig :: jsval
  getRecordByKey :: "string option \<Rightarrow> string option \<Rightarrow> jsval"
  getNodeByKey :: "string \<Rightarrow> jsval"
  getShadowLocales :: "jsval \<Rightarrow> jsval"
  getValueByKey :: "jsval \<Rightarrow> jsval"
  loader_write :: "pending list \<Rightarrow> bool"
  loader_locales :: "string list option"
  getReviews :: "string \<Rightarrow> jsval"
  activeDocument :: "document option"
  isLanguageIdSupported :: "string \<Rightarrow> bool"
  getKeys :: "document \<Rightarrow> jsobj list option"
  getFlagName :: "string \<Rightarrow> jsval"
  Config_debug :: jsval
  Config_reviewEnabled :: jsval
  Config_sourceLanguage :: jsval
  Config_displayLanguage :: jsval
  Config_enabledFrameworks :: jsval
  Config_ignoredLocales :: jsval
  Config_translateOverrideExisting :: jsval
  Config_reviewUser :: jsval
  i18n_messages :: jsval
  EXT_ID :: string
  Commands_open_editor :: string

section \<open>The session\<close>

datatype mode = Standalone | CurrentFile

text \<open>
  The fields of \<^verbatim>\<open>Protocol\<close>, and the two things the asynchronous code keeps outside
  them: \<open>flushes\<close> holds, for every run of the delivery loop of \<^verbatim>\<open>postMessage\<close> that is
  suspended at its \<^verbatim>\<open>await\<close>, the messages of its batch not yet handed to the transport;
  \<open>calls\<close> is the record of the calls made to the collaborators so far.
\<close>

record state =
  ready :: bool
  pendingMessages :: "jsobj list"
  editing_key :: "string option"
  mode :: mode
  flushes :: "jsobj list list"
  calls :: "call list"

definition init :: state where
  "init = \<lparr> ready = False, pendingMessages = [], editing_key = None, mode = Standalone,
            flushes = [], calls = [] \<rparr>"

text \<open>The messages handed to the transport so far, in order.\<close>

fun transported :: "call list \<Rightarrow> jsobj list" where
  "transported [] = []"
| "transported (Transport m # cs) = m # transported cs"
| "transported (c # cs) = transported cs"

subsection \<open>The queue and its gate\<close>

text \<open>
  \<^verbatim>\<open>postMessage\<close> up to its first \<^verbatim>\<open>await\<close>: the message joins the queue; when the session is
  ready the queue is swapped for an empty one, the transport is called on the first
  message of the batch, and the loop suspends on the promise of that call.
\<close>

definition postMessage :: "jsobj \<Rightarrow> state \<Rightarrow> state" where
  "postMessage msg s =
     (let queue = pendingMessages s @ [msg] in
      if ready s then
        (case queue of
           [] \<Rightarrow> s\<lparr> pendingMessages := [] \<rparr>
         | m # ms \<Rightarrow> s\<lparr> pendingMessages := [], flushes := flushes s @ [ms],
                        calls := calls s @ [Transport m] \<rparr>)
      else s\<lparr> pendingMessages := queue \<rparr>)"

text \<open>
  The promise awaited by the \<open>i\<close>-th suspended delivery loop settles. When it resolves,
  the loop hands its next message to the transport and suspends again, or ends when its
  batch is exhausted. When it rejects (or the transport had thrown), the
  loop ends there and the rest of its batch is lost with it.
\<close>

definition settle :: "nat \<Rightarrow> bool \<Rightarrow> state \<Rightarrow> state" where
  "settle i resolved s =
     (if i < length (flushes s) then
        (case flushes s ! i of
           m # ms \<Rightarrow>
             if resolved
             then s\<lparr> flushes := (flushes s)[i := ms], calls := calls s @ [Transport m] \<rparr>
             else s\<lparr> flushes := take i (flushes s) @ drop (Suc i) (flushes s) \<rparr>
         | [] \<Rightarrow> s\<lparr> flushes := take i (flushes s) @ drop (Suc i) (flushes s) \<rparr>)
      else s)"

subsection \<open>Configuration and interface strings\<close>

definition config :: "env \<Rightarrow> jsobj" where
  "config env =
     (let locales = (case loader_locales env of None \<Rightarrow> [] | Some ls \<Rightarrow> ls) in
      assign
        [ (''debug'', Config_debug env),
          (''review'', Config_reviewEnabled env),
          (''locales'', JArr (map JStr locales)),
          (''flags'', JArr (map (getFlagName env) locales)),
          (''sourceLanguage'', Config_sourceLanguage env),
          (''displayLanguage'', Config_displayLanguage env),
          (''enabledFrameworks'', Config_enabledFrameworks env),
          (''ignoredLocales'', Config_ignoredLocales env),
          (''translateOverrideExisting'', Config_translateOverrideExisting env),
          (''user'', Config_reviewUser env) ]
        (spread (extendConfig env)))"

definition updateConfig :: "env \<Rightarrow> state \<Rightarrow> state" where
  "updateConfig env s =
     postMessage [(''type'', JStr ''config''), (''data'', JObj (config env))] s"

definition updateI18nMessages :: "env \<Rightarrow> state \<Rightarrow> state" where
  "updateI18nMessages env s =
     postMessage [(''type'', JStr ''i18n''), (''data'', i18n_messages env)] s"

subsection \<open>Records\<close>

datatype error = TypeError | HookError | WriteError

datatype outcome = Resolved | Rejected error

definition enrich :: "env \<Rightarrow> 'a item_scheme \<Rightarrow> pending" where
  "enrich env i =
     (let record = getRecordByKey env (m_keypath i) (m_locale i) in
      \<lparr> m_keypath = m_keypath i, m_locale = m_locale i, m_value = m_value i,
        filepath = opt_get record ''filepath'',
        namespace = opt_get (opt_get record ''meta'') ''namespace'' \<rparr>)"

definition setRecords :: "env \<Rightarrow> 'a item_scheme list \<Rightarrow> state \<Rightarrow> outcome \<times> state" where
  "setRecords env items s =
     (let pendings = map (enrich env) items;
          s' = s\<lparr> calls := calls s @ [LoaderWrite pendings] \<rparr>
      in (if loader_write env pendings then Resolved else Rejected WriteError, s'))"

subsection \<open>Editor context\<close>

definition setContext :: "jsval \<Rightarrow> state \<Rightarrow> state" where
  "setContext ctx s =
     postMessage
       [(''type'', JStr ''context''), (''data'', if ctx = JUndefined then JObj [] else ctx)] s"

definition sendCurrentFileContext :: "env \<Rightarrow> state \<Rightarrow> bool \<times> state" where
  "sendCurrentFileContext env s =
     (let s1 = (if mode s = Standalone then setContext (JObj []) s else s) in
      case activeDocument env of
        None \<Rightarrow> (False, s1)
      | Some doc \<Rightarrow>
          if \<not> isLanguageIdSupported env (languageId doc) then (False, s1)
          else
            (let keys = (case getKeys env doc of None \<Rightarrow> [] | Some ks \<Rightarrow> ks) in
             if keys = [] then (False, s1)
             else
               (let keys' = map (\<lambda>k. JObj (assign k
                               [(''value'', getValueByKey env (opt_get (JObj k) ''key''))])) keys;
                    ctx = JObj [(''filepath'', JStr (fsPath doc)), (''keys'', JArr keys')]
                in (True, setContext ctx s1))))"

definition openKey :: "env \<Rightarrow> string \<Rightarrow> string option \<Rightarrow> int option \<Rightarrow> state \<Rightarrow> state" where
  "openKey env keypath loc index s =
     (let node = getNodeByKey env keypath in
      if truthy node then
        (let s1 = s\<lparr> editing_key := Some keypath \<rparr>;
             s2 = postMessage
                    [ (''type'', JStr ''route''),
                      (''route'', JStr ''open-key''),
                      (''data'', JObj
                         [ (''locale'', opt_str loc),
                           (''keypath'', JStr keypath),
                           (''records'', getShadowLocales env node),
                           (''reviews'', getReviews env keypath),
                           (''keyIndex'', opt_num index) ]) ] s1
         in snd (sendCurrentFileContext env s2))
      else s)"

subsection \<open>The dispatcher\<close>

text \<open>The object \<^verbatim>\<open>{ ...data, _id: message._id }\<close> and the helper \<^verbatim>\<open>reply\<close> that queues it.\<close>

definition reply_msg :: "message \<Rightarrow> jsval \<Rightarrow> jsobj" where
  "reply_msg message data = assign (spread data) [(''_id'', opt_num (m_id message))]"

definition reply :: "message \<Rightarrow> jsval \<Rightarrow> state \<Rightarrow> state" where
  "reply message data s = postMessage (reply_msg message data) s"

definition hook :: "env \<Rightarrow> message \<Rightarrow> hook_outcome" where
  "hook env message =
     (case extendHandler env of None \<Rightarrow> HookResolves None | Some h \<Rightarrow> h message)"

definition dispatch :: "env \<Rightarrow> message \<Rightarrow> state \<Rightarrow> outcome \<times> state" where
  "dispatch env message s =
     (let t = m_type message; kp = m_keypath message; loc = m_locale message in
      if t = ''ready'' then
        (Resolved,
         updateI18nMessages env (updateConfig env
           (postMessage [(''type'', JStr ''ready'')] (s\<lparr> ready := True \<rparr>))))
      else if t = ''init'' then (Resolved, updateI18nMessages env s)
      else if t = ''get_record'' then
        (Resolved, reply message (getRecordByKey env kp loc) s)
      else if t = ''set_record'' then setRecords env [message] s
      else if t = ''get_records'' then
        (case m_items message of
           None \<Rightarrow> (Rejected TypeError, s)
         | Some items \<Rightarrow>
             (Resolved,
              reply message
                (JArr (map (\<lambda>i. getRecordByKey env (m_keypath i) (m_locale i)) items)) s))
      else if t = ''set_records'' then
        (case m_items message of
           None \<Rightarrow> (Rejected TypeError, s)
         | Some items \<Rightarrow> setRecords env items s)
      else if t = ''translate'' then
        (Resolved, s\<lparr> calls := calls s @ [TranslateKeys (m_data message)] \<rparr>)
      else if t = ''review.description'' then
        (Resolved, s\<lparr> calls := calls s @ [PromptEditDescription kp] \<rparr>)
      else if t = ''review.comment'' then
        (Resolved, s\<lparr> calls := calls s @ [AddComment kp loc (m_data message)] \<rparr>)
      else if t = ''review.edit'' then
        (Resolved, s\<lparr> calls := calls s @ [EditComment kp loc (m_data message)] \<rparr>)
      else if t = ''review.resolve'' then
        (Resolved, s\<lparr> calls := calls s @ [ResolveComment kp loc (m_commentId message)] \<rparr>)
      else if t = ''review.apply-suggestion'' then
        (Resolved, s\<lparr> calls := calls s @ [ApplySuggestion kp loc (m_commentId message)] \<rparr>)
      else if t = ''open-builtin-settings'' then
        (Resolved,
         s\<lparr> calls := calls s @
              [ExecuteCommand ''workbench.extensions.action.configure'' [EXT_ID env]] \<rparr>)
      else if t = ''open-search'' then
        (Resolved, s\<lparr> calls := calls s @ [ExecuteCommand (Commands_open_editor env) []] \<rparr>)
      else if t = ''translation.apply'' then
        (Resolved, s\<lparr> calls := calls s @ [ApplyTranslationCandidate kp loc] \<rparr>)
      else if t = ''translation.edit'' then
        (Resolved, s\<lparr> calls := calls s @ [PromptEditTranslation kp loc] \<rparr>)
      else if t = ''translation.discard'' then
        (Resolved, s\<lparr> calls := calls s @ [DiscardTranslationCandidate kp loc] \<rparr>)
      else (Resolved, s))"

text \<open>
  \<^verbatim>\<open>handleMessages\<close> from the point where the promise of the extension hook has settled
  (with no hook, \<^verbatim>\<open>handled\<close> is \<^verbatim>\<open>undefined\<close>). The result says whether the promise of
  \<^verbatim>\<open>handleMessages\<close> resolves.
\<close>

definition handleMessages :: "env \<Rightarrow> message \<Rightarrow> state \<Rightarrow> outcome \<times> state" where
  "handleMessages env message s =
     (case hook env message of
        HookRejects \<Rightarrow> (Rejected HookError, s)
      | HookResolves handled \<Rightarrow>
          if handled = Some True then (Resolved, s) else dispatch env message s)"

subsection \<open>Everything that can happen to a session\<close>

text \<open>
  The public methods, the three subscriptions of the constructor, and the settling of
  a transport promise.
\<close>

datatype op =
    PostMessage jsobj
  | HandleMessages message
  | OpenKey string "string option" "int option"
  | SetContext jsval
  | SendCurrentFileContext
  | UpdateConfig
  | UpdateI18nMessages
  | SetMode mode
  | Dispose
  | LoaderDidChange
  | ConfigurationDidChange
  | ReviewsDidChange "string option"
  | TransportSettled nat bool

definition reopen :: "env \<Rightarrow> state \<Rightarrow> state" where
  "reopen env s =
     (case editing_key s of
        None \<Rightarrow> s
      | Some k \<Rightarrow> if k = [] then s else openKey env k None None s)"

fun step :: "env \<Rightarrow> op \<Rightarrow> state \<Rightarrow> state" where
  "step env (PostMessage m) s = postMessage m s"
| "step env (HandleMessages m) s = snd (handleMessages env m s)"
| "step env (OpenKey k l i) s = openKey env k l i s"
| "step env (SetContext c) s = setContext c s"
| "step env SendCurrentFileContext s = snd (sendCurrentFileContext env s)"
| "step env UpdateConfig s = updateConfig env s"
| "step env UpdateI18nMessages s = updateI18nMessages env s"
| "step env (SetMode v) s = (if mode s \<noteq> v then s\<lparr> mode := v \<rparr> else s)"
| "step env Dispose s = s"
| "step env LoaderDidChange s = reopen env s"
| "step env ConfigurationDidChange s = updateConfig env s"
| "step env (ReviewsDidChange keypath) s =
     (case keypath of
        None \<Rightarrow> reopen env s
      | Some k \<Rightarrow> if k = [] \<or> editing_key s = Some k then reopen env s else s)"
| "step env (TransportSettled i resolved) s = settle i resolved s"

section \<open>Notions used in the statements\<close>

text \<open>
  The switch of \<^verbatim>\<open>handleMessages\<close> is reached when the hook is absent or its promise
  resolves to a falsy value.
\<close>

definition proceeds :: "env \<Rightarrow> message \<Rightarrow> bool" where
  "proceeds env message =
     (case hook env message of
        HookRejects \<Rightarrow> False
      | HookResolves handled \<Rightarrow> handled \<noteq> Some True)"

text \<open>The messages the component builds itself.\<close>

definition ready_ack :: jsobj where
  "ready_ack = [(''type'', JStr ''ready'')]"

definition config_msg :: "env \<Rightarrow> jsobj" where
  "config_msg env = [(''type'', JStr ''config''), (''data'', JObj (config env))]"

definition i18n_msg :: "env \<Rightarrow> jsobj" where
  "i18n_msg env = [(''type'', JStr ''i18n''), (''data'', i18n_messages env)]"

definition context_msg :: "jsval \<Rightarrow> jsobj" where
  "context_msg ctx = [(''type'', JStr ''context''), (''data'', ctx)]"

text \<open>The keys \<^verbatim>\<open>KeyDetector.getKeys(doc) || []\<close> and a key with its current value.\<close>

definition detected_keys :: "env \<Rightarrow> document \<Rightarrow> jsobj list" where
  "detected_keys env doc = (case getKeys env doc of None \<Rightarrow> [] | Some ks \<Rightarrow> ks)"

definition with_value :: "env \<Rightarrow> jsobj \<Rightarrow> jsval" where
  "with_value env k = JObj (assign k [(''value'', getValueByKey env (opt_get (JObj k) ''key''))])"

text \<open>The session after the baseline clear of \<^verbatim>\<open>sendCurrentFileContext\<close>.\<close>

definition baseline :: "state \<Rightarrow> state" where
  "baseline s = (if mode s = Standalone then postMessage (context_msg (JObj [])) s else s)"

text \<open>
  Every message a session holds: still queued, waiting in a suspended delivery loop, or
  already handed to the transport.
\<close>

definition held :: "state \<Rightarrow> jsobj set" where
  "held s = set (pendingMessages s) \<union> set (concat (flushes s)) \<union> set (transported (calls s))"





text \<open>A session: the steps taken from the initial state, each with the collaborators of its moment.\<close>

definition run :: "(env \<times> op) list \<Rightarrow> state \<Rightarrow> state" where
  "run steps s = fold (\<lambda>(env, op). step env op) steps s"

text \<open>
  A schedule of resolutions: the promises awaited by the delivery loops resolve in the
  given order of loop positions. The unfinished loops are those with messages left.
\<close>

definition resolve :: "nat list \<Rightarrow> state \<Rightarrow> state" where
  "resolve order s = fold (\<lambda>i. settle i True) order s"

definition unfinished :: "state \<Rightarrow> jsobj list list" where
  "unfinished s = filter (\<lambda>f. f \<noteq> []) (flushes s)"

text \<open>
  A schedule of settlements: the promise of the loop at the given position resolves
  (\<open>True\<close>) or rejects (\<open>False\<close>), one after the other.
\<close>

definition settle_all :: "(nat \<times> bool) list \<Rightarrow> state \<Rightarrow> state" where
  "settle_all schedule s = fold (\<lambda>(i, resolved). settle i resolved) schedule s"

text \<open>The inverse of \<open>string_of_nat\<close> on its range.\<close>

definition nat_of_string :: "string \<Rightarrow> nat" where
  "nat_of_string cs = foldl (\<lambda>a c. 10 * a + (of_char c - 48)) 0 cs"

subsection \<open>Sample collaborators and messages\<close>

definition demo_record :: jsval where
  "demo_record =
     JObj [ (''keypath'', JStr ''a.b''), (''locale'', JStr ''en''), (''value'', JStr ''Hello''),
            (''filepath'', JStr ''/locales/en.json''),
            (''meta'', JObj [(''namespace'', JStr ''common'')]),
            (''type'', JStr ''record'') ]"

definition demo_doc :: document where
  "demo_doc = \<lparr> languageId = ''vue'', fsPath = ''/src/App.vue'' \<rparr>"

definition demo_env :: env where
  "demo_env =
     \<lparr> extendHandler = None,
       extendConfig = JUndefined,
       getRecordByKey = (\<lambda>k l. if k = Some ''a.b'' then demo_record else JUndefined),
       getNodeByKey = (\<lambda>k. if k = ''a.b'' then JObj [(''type'', JStr ''node'')] else JUndefined),
       getShadowLocales = (\<lambda>n. JArr [demo_record]),
       getValueByKey = (\<lambda>k. if k = JStr ''a.b'' then JStr ''Hello'' else JUndefined),
       loader_write = (\<lambda>ps. True),
       loader_locales = Some [''en''],
       getReviews = (\<lambda>k. JObj []),
       activeDocument = Some demo_doc,
       isLanguageIdSupported = (\<lambda>l. l = ''vue''),
       getKeys = (\<lambda>d. Some []),
       getFlagName = JStr,
       Config_debug = JBool False,
       Config_reviewEnabled = JBool True,
       Config_sourceLanguage = JStr ''en'',
       Config_displayLanguage = JStr ''en'',
       Config_enabledFrameworks = JArr [JStr ''vue''],
       Config_ignoredLocales = JArr [],
       Config_translateOverrideExisting = JBool False,
       Config_reviewUser = JUndefined,
       i18n_messages = JObj [],
       EXT_ID = ''i18n-ally'',
       Commands_open_editor = ''i18n-ally.open-editor'' \<rparr>"

definition demo_env_keys :: env where
  "demo_env_keys = demo_env\<lparr> getKeys := (\<lambda>d. Some [[(''key'', JStr ''a.b'')]]) \<rparr>"

definition demo_hook :: "message \<Rightarrow> hook_outcome" where
  "demo_hook m = HookResolves (Some (m_type m = ''ready''))"

definition demo_env_hook :: env where
  "demo_env_hook = demo_env\<lparr> extendHandler := Some demo_hook \<rparr>"

definition demo_msg :: "string \<Rightarrow> message" where
  "demo_msg t =
     \<lparr> m_keypath = Some ''a.b'', m_locale = Some ''en'', m_value = Some ''X'',
       m_type = t, m_id = Some 42, m_route = None, m_data = JUndefined, m_commentId = None,
       m_items = Some [ \<lparr> m_keypath = Some ''a.b'', m_locale = Some ''en'', m_value = Some ''X'' \<rparr> ] \<rparr>"

definition demo_msg2 :: "string \<Rightarrow> message" where
  "demo_msg2 t =
     (demo_msg t)\<lparr> m_items :=
        Some [ \<lparr> m_keypath = Some ''a.b'', m_locale = Some ''en'', m_value = None \<rparr>,
               \<lparr> m_keypath = Some ''c.d'', m_locale = Some ''fr'', m_value = None \<rparr> ] \<rparr>"

definition demo_out :: jsobj where
  "demo_out = [(''type'', JStr ''custom''), (''data'', JNum 1)]"

section \<open>Basic facts\<close>

lemma handleMessages_proceeds:
  "proceeds env m \<Longrightarrow> handleMessages env m s = dispatch env m s"
  by (auto simp: proceeds_def handleMessages_def split: hook_outcome.splits)

lemma handleMessages_not_proceeds:
  "\<not> proceeds env m \<Longrightarrow> snd (handleMessages env m s) = s"
  by (auto simp: proceeds_def handleMessages_def split: hook_outcome.splits)

lemma postMessage_ready:
  "ready s \<Longrightarrow>
   postMessage m s =
     s\<lparr> pendingMessages := [], flushes := flushes s @ [tl (pendingMessages s @ [m])],
        calls := calls s @ [Transport (hd (pendingMessages s @ [m]))] \<rparr>"
  by (cases "pendingMessages s") (simp_all add: postMessage_def)

lemma postMessage_not_ready:
  "\<not> ready s \<Longrightarrow> postMessage m s = s\<lparr> pendingMessages := pendingMessages s @ [m] \<rparr>"
  by (simp add: postMessage_def)

lemma transported_append [simp]: "transported (xs @ ys) = transported xs @ transported ys"
  by (induction xs rule: transported.induct) simp_all

lemma transported_map [simp]: "transported (map Transport ms) = ms"
  by (induction ms) simp_all

lemma held_postMessage: "held (postMessage x s) = insert x (held s)"
proof (cases "ready s")
  case True
  show ?thesis
  proof (cases "pendingMessages s")
    case Nil
    with True show ?thesis by (simp add: postMessage_def held_def)
  next
    case (Cons p ps)
    with True show ?thesis by (auto simp: postMessage_def held_def)
  qed
next
  case False
  then show ?thesis by (simp add: postMessage_def held_def)
qed

lemma postMessage_cases:
  "(\<not> ready s \<longrightarrow> postMessage r s = s\<lparr> pendingMessages := pendingMessages s @ [r] \<rparr>) \<and>
   (ready s \<longrightarrow>
    postMessage r s =
      s\<lparr> pendingMessages := [], flushes := flushes s @ [tl (pendingMessages s @ [r])],
         calls := calls s @ [Transport (hd (pendingMessages s @ [r]))] \<rparr>)"
  by (simp add: postMessage_ready postMessage_not_ready)

lemma setContext_eq: "setContext (JObj ps) s = postMessage (context_msg (JObj ps)) s"
  by (simp add: setContext_def context_msg_def)

lemma setRecords_eq:
  "setRecords env xs s =
     (if loader_write env (map (enrich env) xs) then Resolved else Rejected WriteError,
      s\<lparr> calls := calls s @ [LoaderWrite (map (enrich env) xs)] \<rparr>)"
  by (simp add: setRecords_def Let_def)

subsection \<open>The ready flag\<close>

lemma ready_postMessage [simp]: "ready (postMessage m s) = ready s"
  by (simp add: postMessage_def Let_def split: list.splits)

lemma ready_settle [simp]: "ready (settle i r s) = ready s"
  by (simp add: settle_def split: list.splits)

lemma ready_setContext [simp]: "ready (setContext c s) = ready s"
  by (simp add: setContext_def)

lemma ready_updateConfig [simp]: "ready (updateConfig env s) = ready s"
  by (simp add: updateConfig_def)

lemma ready_updateI18nMessages [simp]: "ready (updateI18nMessages env s) = ready s"
  by (simp add: updateI18nMessages_def)

lemma ready_sendCurrentFileContext [simp]:
  "ready (snd (sendCurrentFileContext env s)) = ready s"
  by (simp add: sendCurrentFileContext_def Let_def split: option.splits)

lemma ready_openKey [simp]: "ready (openKey env k l i s) = ready s"
  by (simp add: openKey_def Let_def)

lemma ready_reopen [simp]: "ready (reopen env s) = ready s"
  by (simp add: reopen_def split: option.splits)

lemma ready_setRecords [simp]: "ready (snd (setRecords env xs s)) = ready s"
  by (simp add: setRecords_def Let_def)

lemma ready_reply [simp]: "ready (reply m d s) = ready s"
  by (simp add: reply_def)

lemma ready_dispatch: "ready (snd (dispatch env m s)) = (ready s \<or> m_type m = ''ready'')"
  by (simp add: dispatch_def Let_def split: option.splits)

lemma ready_handleMessages:
  "ready (snd (handleMessages env m s)) = (ready s \<or> (proceeds env m \<and> m_type m = ''ready''))"
  by (cases "proceeds env m")
     (simp_all add: handleMessages_proceeds handleMessages_not_proceeds ready_dispatch)

lemma ready_step:
  "ready (step env op s) =
     (ready s \<or> (\<exists>m. op = HandleMessages m \<and> proceeds env m \<and> m_type m = ''ready''))"
  by (cases op) (simp_all add: ready_handleMessages split: option.splits)

lemma dispatch_ready:
  "m_type m = ''ready'' \<Longrightarrow>
   dispatch env m s =
     (Resolved,
      s\<lparr> ready := True, pendingMessages := [],
         flushes := flushes s @ [tl (pendingMessages s @ [ready_ack]), [], []],
         calls := calls s @ [Transport (hd (pendingMessages s @ [ready_ack])),
                             Transport (config_msg env), Transport (i18n_msg env)] \<rparr>)"
  by (simp add: dispatch_def Let_def updateI18nMessages_def updateConfig_def postMessage_ready
      ready_ack_def config_msg_def i18n_msg_def)

subsection \<open>Delivery loops\<close>

lemma fold_postMessage_not_ready:
  "\<not> ready s \<Longrightarrow> fold postMessage ms s = s\<lparr> pendingMessages := pendingMessages s @ ms \<rparr>"
proof (induction ms arbitrary: s)
  case Nil
  then show ?case by simp
next
  case (Cons m ms)
  then show ?case by (simp add: postMessage_not_ready)
qed

lemma settle_head_resolved:
  "flushes s = (m # ms) # rest \<Longrightarrow>
   settle 0 True s = s\<lparr> flushes := ms # rest, calls := calls s @ [Transport m] \<rparr>"
  by (simp add: settle_def)

lemma settle_head_run:
  "flushes s = (xs @ ys) # rest \<Longrightarrow>
   (settle 0 True ^^ length xs) s =
     s\<lparr> flushes := ys # rest, calls := calls s @ map Transport xs \<rparr>"
proof (induction xs arbitrary: s)
  case Nil
  then show ?case by simp
next
  case (Cons x xs)
  have "(settle 0 True ^^ length (x # xs)) s = (settle 0 True ^^ length xs) (settle 0 True s)"
    by (simp add: funpow_swap1)
  also have "settle 0 True s =
      s\<lparr> flushes := (xs @ ys) # rest, calls := calls s @ [Transport x] \<rparr>"
    using Cons.prems by (simp add: settle_head_resolved)
  also have "(settle 0 True ^^ length xs) \<dots> =
      s\<lparr> flushes := ys # rest, calls := calls s @ map Transport (x # xs) \<rparr>"
    by (subst Cons.IH) simp_all
  finally show ?case .
qed

lemma filter_single_update:
  assumes "i < length fs" and "P (fs ! i)" and "filter P fs = [fs ! i]"
  shows "filter P (fs[i := y]) = (if P y then [y] else [])"
proof -
  have "fs = take i fs @ fs ! i # drop (Suc i) fs"
    using assms(1) by (rule id_take_nth_drop)
  then have "filter P fs = filter P (take i fs) @ fs ! i # filter P (drop (Suc i) fs)"
    using assms(2) by (metis filter.simps(2) filter_append)
  with assms(3) have "filter P (take i fs) = []" "filter P (drop (Suc i) fs) = []"
    by (simp_all add: append_eq_Cons_conv)
  moreover have "fs[i := y] = take i fs @ y # drop (Suc i) fs"
    using assms(1) by (rule upd_conv_take_nth_drop)
  ultimately show ?thesis by simp
qed

lemma filter_remove_nth:
  assumes "i < length fs" and "\<not> P (fs ! i)"
  shows "filter P (take i fs @ drop (Suc i) fs) = filter P fs"
proof -
  have "fs = take i fs @ fs ! i # drop (Suc i) fs"
    using assms(1) by (rule id_take_nth_drop)
  then have "filter P fs = filter P (take i fs @ fs ! i # drop (Suc i) fs)"
    by simp
  with assms(2) show ?thesis by simp
qed

lemma settle_resolved_progress:
  assumes "j \<le> length r"
    and "calls s = cs @ map Transport (take j r)"
    and "unfinished s = (if j < length r then [drop j r] else [])"
  shows "\<exists>j'. j \<le> j' \<and> j' \<le> length r \<and>
    calls (settle i True s) = cs @ map Transport (take j' r) \<and>
    unfinished (settle i True s) = (if j' < length r then [drop j' r] else [])"
proof (cases "i < length (flushes s)")
  case False
  with assms show ?thesis by (auto simp: settle_def)
next
  case True
  show ?thesis
  proof (cases "flushes s ! i")
    case Nil
    have "unfinished (settle i True s) = unfinished s"
      using True Nil
      by (simp add: settle_def unfinished_def filter_remove_nth del: filter_append)
    moreover have "calls (settle i True s) = calls s"
      using True Nil by (simp add: settle_def)
    ultimately show ?thesis
      using assms by auto
  next
    case (Cons m ms)
    have "flushes s ! i \<in> set (flushes s)"
      using True by (rule nth_mem)
    then have "flushes s ! i \<in> set (unfinished s)"
      using Cons by (simp add: unfinished_def)
    with assms(3) have j: "j < length r" and d: "flushes s ! i = drop j r"
      by (auto split: if_splits)
    from d Cons j have m: "m = r ! j" and ms: "ms = drop (Suc j) r"
      by (simp_all add: Cons_nth_drop_Suc [symmetric])
    have "filter (\<lambda>f. f \<noteq> []) (flushes s) = [flushes s ! i]"
      using assms(3) j d by (simp add: unfinished_def)
    with True Cons have "filter (\<lambda>f. f \<noteq> []) ((flushes s)[i := ms]) =
        (if ms \<noteq> [] then [ms] else [])"
      by (intro filter_single_update) simp_all
    then have "unfinished (settle i True s) =
        (if Suc j < length r then [drop (Suc j) r] else [])"
      using True Cons ms by (auto simp: settle_def unfinished_def)
    moreover have "calls (settle i True s) = cs @ map Transport (take (Suc j) r)"
      using True Cons assms(2) j m by (simp add: settle_def take_Suc_conv_app_nth)
    ultimately show ?thesis
      using j by (intro exI [of _ "Suc j"]) simp
  qed
qed

lemma resolve_progress:
  assumes "j \<le> length r"
    and "calls s = cs @ map Transport (take j r)"
    and "unfinished s = (if j < length r then [drop j r] else [])"
  shows "\<exists>j'. j \<le> j' \<and> j' \<le> length r \<and>
    calls (resolve order s) = cs @ map Transport (take j' r) \<and>
    unfinished (resolve order s) = (if j' < length r then [drop j' r] else [])"
  using assms
proof (induction order arbitrary: s j)
  case Nil
  then show ?case by (auto simp: resolve_def)
next
  case (Cons i order)
  from settle_resolved_progress [OF Cons.prems, of i]
  obtain j1 where j1: "j \<le> j1" "j1 \<le> length r"
    "calls (settle i True s) = cs @ map Transport (take j1 r)"
    "unfinished (settle i True s) = (if j1 < length r then [drop j1 r] else [])"
    by blast
  from Cons.IH [OF j1(2-4)]
  obtain j2 where "j1 \<le> j2" "j2 \<le> length r"
    "calls (resolve order (settle i True s)) = cs @ map Transport (take j2 r)"
    "unfinished (resolve order (settle i True s)) =
       (if j2 < length r then [drop j2 r] else [])"
    by blast
  with j1(1) show ?case
    by (intro exI [of _ j2]) (simp add: resolve_def)
qed

lemma filter_single_remove:
  assumes "i < length fs" and "P (fs ! i)" and "filter P fs = [fs ! i]"
  shows "filter P (take i fs @ drop (Suc i) fs) = []"
proof -
  have "fs = take i fs @ fs ! i # drop (Suc i) fs"
    using assms(1) by (rule id_take_nth_drop)
  then have "filter P fs = filter P (take i fs) @ fs ! i # filter P (drop (Suc i) fs)"
    using assms(2) by (metis filter.simps(2) filter_append)
  with assms(3) have "filter P (take i fs) = []" "filter P (drop (Suc i) fs) = []"
    by (simp_all add: append_eq_Cons_conv)
  then show ?thesis by simp
qed

lemma settle_progress:
  assumes "j \<le> length r"
    and "calls s = cs @ map Transport (take j r)"
    and "unfinished s = [] \<or> j < length r \<and> unfinished s = [drop j r]"
  shows "\<exists>j'. j \<le> j' \<and> j' \<le> length r \<and>
    calls (settle i b s) = cs @ map Transport (take j' r) \<and>
    (unfinished (settle i b s) = [] \<or>
     j' < length r \<and> unfinished (settle i b s) = [drop j' r])"
proof (cases "i < length (flushes s)")
  case False
  with assms show ?thesis by (auto simp: settle_def)
next
  case True
  show ?thesis
  proof (cases "flushes s ! i")
    case Nil
    have "unfinished (settle i b s) = unfinished s"
      using True Nil
      by (simp add: settle_def unfinished_def filter_remove_nth del: filter_append)
    moreover have "calls (settle i b s) = calls s"
      using True Nil by (simp add: settle_def)
    ultimately show ?thesis
      using assms by auto
  next
    case (Cons m ms)
    have "flushes s ! i \<in> set (flushes s)"
      using True by (rule nth_mem)
    then have "flushes s ! i \<in> set (unfinished s)"
      using Cons by (simp add: unfinished_def)
    with assms(3) have j: "j < length r" and u: "unfinished s = [drop j r]"
      and d: "flushes s ! i = drop j r"
      by auto
    have single: "filter (\<lambda>f. f \<noteq> []) (flushes s) = [flushes s ! i]"
      using u d by (simp add: unfinished_def)
    show ?thesis
    proof (cases b)
      case True
      from j u have "unfinished s = (if j < length r then [drop j r] else [])"
        by simp
      from settle_resolved_progress [OF assms(1,2) this, of i]
      obtain j' where "j \<le> j'" "j' \<le> length r"
        "calls (settle i True s) = cs @ map Transport (take j' r)"
        "unfinished (settle i True s) = (if j' < length r then [drop j' r] else [])"
        by blast
      with True show ?thesis
        by (intro exI [of _ j']) auto
    next
      case False
      have "filter (\<lambda>f. f \<noteq> []) (take i (flushes s) @ drop (Suc i) (flushes s)) = []"
        using \<open>i < length (flushes s)\<close> Cons single
        by (intro filter_single_remove) simp_all
      then have "unfinished (settle i b s) = []"
        using \<open>i < length (flushes s)\<close> Cons False
        by (simp add: settle_def unfinished_def del: filter_append)
      moreover have "calls (settle i b s) = calls s"
        using \<open>i < length (flushes s)\<close> Cons False by (simp add: settle_def)
      ultimately show ?thesis
        using assms(1,2) by (intro exI [of _ j]) simp
    qed
  qed
qed

lemma settle_all_progress:
  assumes "j \<le> length r"
    and "calls s = cs @ map Transport (take j r)"
    and "unfinished s = [] \<or> j < length r \<and> unfinished s = [drop j r]"
  shows "\<exists>j'. j \<le> j' \<and> j' \<le> length r \<and>
    calls (settle_all schedule s) = cs @ map Transport (take j' r)"
  using assms
proof (induction schedule arbitrary: s j)
  case Nil
  then show ?case by (auto simp: settle_all_def)
next
  case (Cons a schedule)
  obtain i b where a: "a = (i, b)" by (cases a)
  from settle_progress [OF Cons.prems, of i b]
  obtain j1 where j1: "j \<le> j1" "j1 \<le> length r"
    "calls (settle i b s) = cs @ map Transport (take j1 r)"
    "unfinished (settle i b s) = [] \<or>
     j1 < length r \<and> unfinished (settle i b s) = [drop j1 r]"
    by blast
  from Cons.IH [OF j1(2-4)]
  obtain j2 where "j1 \<le> j2" "j2 \<le> length r"
    "calls (settle_all schedule (settle i b s)) = cs @ map Transport (take j2 r)"
    by blast
  with j1(1) show ?case
    by (intro exI [of _ j2]) (simp add: settle_all_def a)
qed

lemma settle_nothing_left:
  assumes "unfinished s = []"
  shows "calls (settle i b s) = calls s \<and> unfinished (settle i b s) = []"
proof (cases "i < length (flushes s)")
  case False
  with assms show ?thesis by (simp add: settle_def)
next
  case True
  then have "flushes s ! i \<in> set (flushes s)" by (rule nth_mem)
  with assms have e: "flushes s ! i = []"
    by (auto simp: unfinished_def filter_empty_conv)
  have "unfinished (settle i b s) = unfinished s"
    using True e by (simp add: settle_def unfinished_def filter_remove_nth del: filter_append)
  with assms True e show ?thesis by (simp add: settle_def)
qed

lemma settle_all_nothing_left:
  "unfinished s = [] \<Longrightarrow> calls (settle_all schedule s) = calls s"
proof (induction schedule arbitrary: s)
  case Nil
  then show ?case by (simp add: settle_all_def)
next
  case (Cons a schedule)
  obtain i b where a: "a = (i, b)" by (cases a)
  from settle_nothing_left [OF Cons.prems, of i b] Cons.IH [of "settle i b s"]
  show ?case by (simp add: settle_all_def a)
qed

subsection \<open>No delivery loop before readiness\<close>

lemma flushes_postMessage: "\<not> ready s \<Longrightarrow> flushes (postMessage m s) = flushes s"
  by (simp add: postMessage_not_ready)

lemma flushes_setContext: "\<not> ready s \<Longrightarrow> flushes (setContext c s) = flushes s"
  by (simp add: setContext_def flushes_postMessage)

lemma flushes_updateConfig: "\<not> ready s \<Longrightarrow> flushes (updateConfig env s) = flushes s"
  by (simp add: updateConfig_def flushes_postMessage)

lemma flushes_updateI18nMessages:
  "\<not> ready s \<Longrightarrow> flushes (updateI18nMessages env s) = flushes s"
  by (simp add: updateI18nMessages_def flushes_postMessage)

lemma flushes_sendCurrentFileContext:
  "\<not> ready s \<Longrightarrow> flushes (snd (sendCurrentFileContext env s)) = flushes s"
  by (simp add: sendCurrentFileContext_def Let_def flushes_setContext split: option.splits)

lemma flushes_openKey: "\<not> ready s \<Longrightarrow> flushes (openKey env k l i s) = flushes s"
  by (simp add: openKey_def Let_def flushes_sendCurrentFileContext flushes_postMessage)

lemma flushes_reopen: "\<not> ready s \<Longrightarrow> flushes (reopen env s) = flushes s"
  by (simp add: reopen_def flushes_openKey split: option.splits)

lemma flushes_dispatch:
  "\<not> ready s \<Longrightarrow> m_type m \<noteq> ''ready'' \<Longrightarrow> flushes (snd (dispatch env m s)) = flushes s"
  by (simp add: dispatch_def Let_def reply_def setRecords_eq flushes_postMessage
      flushes_updateI18nMessages split: option.splits)

lemma flushes_settle_none: "flushes s = [] \<Longrightarrow> settle i r s = s"
  by (simp add: settle_def)

lemma no_loop_step:
  assumes "ready s \<or> flushes s = []"
  shows "ready (step env op s) \<or> flushes (step env op s) = []"
proof (cases "ready s")
  case True
  then show ?thesis by (simp add: ready_step)
next
  case False
  with assms have e: "flushes s = []" by simp
  show ?thesis
  proof (cases op)
    case (HandleMessages m)
    show ?thesis
    proof (cases "proceeds env m \<and> m_type m = ''ready''")
      case True
      with HandleMessages show ?thesis by (simp add: ready_handleMessages)
    next
      case False
      with HandleMessages \<open>\<not> ready s\<close> e show ?thesis
        by (cases "proceeds env m")
           (auto simp: handleMessages_proceeds handleMessages_not_proceeds flushes_dispatch)
    qed
  next
    case (ReviewsDidChange k)
    with False e show ?thesis
      by (simp add: flushes_reopen split: option.splits)
  qed (use False e in \<open>simp_all add: flushes_postMessage flushes_openKey flushes_setContext
        flushes_sendCurrentFileContext flushes_updateConfig flushes_updateI18nMessages
        flushes_reopen flushes_settle_none\<close>)
qed

lemma no_loop_run:
  "ready s \<or> flushes s = [] \<Longrightarrow> ready (run steps s) \<or> flushes (run steps s) = []"
proof (induction steps arbitrary: s)
  case Nil
  then show ?case by (simp add: run_def)
next
  case (Cons a steps)
  obtain env op where a: "a = (env, op)" by (cases a)
  have "ready (step env op s) \<or> flushes (step env op s) = []"
    using Cons.prems by (rule no_loop_step)
  from Cons.IH [OF this] show ?case
    by (simp add: run_def a)
qed

lemma no_loop_before_ready: "\<not> ready (run steps init) \<Longrightarrow> flushes (run steps init) = []"
  using no_loop_run [of init steps] by (simp add: init_def)

section \<open>The queue and its gate\<close>

text \<open>
  The claim C1 as written fails: it promises that no buffered message is dropped, but a
  delivery loop that awaits a rejected promise ends there. With two messages buffered,
  after the \<^verbatim>\<open>ready\<close> message is handled and the promise of the first delivery rejects,
  the transport has received the first message, \<^verbatim>\<open>config\<close> and \<^verbatim>\<open>i18n\<close>; the second
  message and the acknowledgement are in no queue and in no loop any more.
\<close>

theorem rejected_delivery_drops_batch_counterexample:
  "settle 0 False
     (snd (handleMessages demo_env (demo_msg ''ready'')
        (fold postMessage [demo_out, demo_out] init))) =
   init\<lparr> ready := True, flushes := [[], []],
         calls := [Transport demo_out, Transport (config_msg demo_env),
                   Transport (i18n_msg demo_env)] \<rparr> \<and>
   ready_ack \<notin> held (settle 0 False
     (snd (handleMessages demo_env (demo_msg ''ready'')
        (fold postMessage [demo_out, demo_out] init))))"
proof -
  have p: "proceeds demo_env (demo_msg ''ready'')" "m_type (demo_msg ''ready'') = ''ready''"
    by (simp_all add: proceeds_def hook_def demo_env_def demo_msg_def)
  have e: "settle 0 False
     (snd (handleMessages demo_env (demo_msg ''ready'')
        (fold postMessage [demo_out, demo_out] init))) =
   init\<lparr> ready := True, flushes := [[], []],
         calls := [Transport demo_out, Transport (config_msg demo_env),
                   Transport (i18n_msg demo_env)] \<rparr>"
    using p
    by (simp add: postMessage_def handleMessages_proceeds dispatch_ready settle_def init_def)
  have "ready_ack \<notin> held (init\<lparr> ready := True, flushes := [[], []],
         calls := [Transport demo_out, Transport (config_msg demo_env),
                   Transport (i18n_msg demo_env)] \<rparr>)"
    by (simp add: held_def init_def ready_ack_def demo_out_def config_msg_def i18n_msg_def)
  with e show ?thesis by simp
qed

text \<open>
  Claim C1, amended. Take any state \<open>s\<close> a session can reach in which it is not ready (no
  delivery loop exists then). Any sequence of \<^verbatim>\<open>postMessage\<close> calls only lengthens the
  queue: nothing is handed to the transport. When a \<^verbatim>\<open>ready\<close> message is then handled,
  the buffered messages followed by the acknowledgement form one batch; its first message
  is handed to the transport at once, and each time the transport's promise for that
  batch resolves the next message of the batch follows. After \<open>k\<close> resolutions the
  transport has received the first \<open>k + 1\<close> messages of the batch, in their enqueue order
  and each once (a message enqueued twice stands twice in the batch); after as many
  resolutions as there were buffered messages the whole batch is delivered. In whatever
  order the promises of the suspended loops resolve, the messages of the batch handed
  over so far are an initial part of the batch, and the batch is complete exactly when no
  loop has a message left. However the promises settle, resolving or rejecting, the part
  of the batch handed over is an initial part of it: no message of the batch is delivered
  twice or out of order. When the promise awaited by the batch rejects after \<open>k\<close>
  resolutions, the rest of the batch is dropped: no later settlement hands any of it to
  the transport. The \<^verbatim>\<open>config\<close> and \<^verbatim>\<open>i18n\<close> messages of the transition are batches of
  their own, handed to the transport right after the first message of the buffered batch.
\<close>

theorem buffered_messages_delivered_in_order:
  assumes "s = run steps init" and "\<not> ready s"
    and "proceeds env m" and "m_type m = ''ready''"
    and "batch = pendingMessages s @ ms @ [ready_ack]"
    and "s1 = snd (handleMessages env m (fold postMessage ms s))"
    and "first = calls s @ [Transport (hd batch), Transport (config_msg env),
                           Transport (i18n_msg env)]"
  shows "fold postMessage ms s = s\<lparr> pendingMessages := pendingMessages s @ ms \<rparr> \<and>
    (\<forall>k \<le> length (tl batch).
       (settle 0 True ^^ k) s1 =
         s\<lparr> ready := True, pendingMessages := [],
            flushes := [drop k (tl batch), [], []],
            calls := first @ map Transport (take k (tl batch)) \<rparr>) \<and>
    (\<forall>order. \<exists>j \<le> length (tl batch).
       calls (resolve order s1) = first @ map Transport (take j (tl batch)) \<and>
       (unfinished (resolve order s1) = [] \<longleftrightarrow> j = length (tl batch))) \<and>
    (\<forall>schedule. \<exists>j \<le> length (tl batch).
       calls (settle_all schedule s1) = first @ map Transport (take j (tl batch))) \<and>
    (\<forall>k \<le> length (tl batch).
       settle 0 False ((settle 0 True ^^ k) s1) =
         s\<lparr> ready := True, pendingMessages := [], flushes := [[], []],
            calls := first @ map Transport (take k (tl batch)) \<rparr> \<and>
       (\<forall>schedule.
          calls (settle_all schedule (settle 0 False ((settle 0 True ^^ k) s1))) =
            first @ map Transport (take k (tl batch))))"
proof -
  have posts: "fold postMessage ms s = s\<lparr> pendingMessages := pendingMessages s @ ms \<rparr>"
    using assms(2) by (rule fold_postMessage_not_ready)
  have "flushes s = []"
    using assms(1,2) by (simp add: no_loop_before_ready)
  then have s1: "s1 = s\<lparr> ready := True, pendingMessages := [],
      flushes := [tl batch, [], []], calls := first \<rparr>"
    using assms(3-7) by (simp add: posts handleMessages_proceeds dispatch_ready)
  have run: "(settle 0 True ^^ k) s1 =
         s\<lparr> ready := True, pendingMessages := [],
            flushes := [drop k (tl batch), [], []],
            calls := first @ map Transport (take k (tl batch)) \<rparr>"
    if k: "k \<le> length (tl batch)" for k
  proof -
    have "flushes s1 = (take k (tl batch) @ drop k (tl batch)) # [[], []]"
      by (simp add: s1)
    from settle_head_run [OF this]
    have "(settle 0 True ^^ length (take k (tl batch))) s1 =
        s1\<lparr> flushes := drop k (tl batch) # [[], []],
            calls := calls s1 @ map Transport (take k (tl batch)) \<rparr>" .
    moreover have "length (take k (tl batch)) = k"
      using k by simp
    ultimately have "(settle 0 True ^^ k) s1 =
        s1\<lparr> flushes := drop k (tl batch) # [[], []],
            calls := calls s1 @ map Transport (take k (tl batch)) \<rparr>"
      by simp
    then show ?thesis
      by (simp add: s1)
  qed
  have c0: "calls s1 = first @ map Transport (take 0 (tl batch))"
    by (simp add: s1)
  have u0: "unfinished s1 = (if 0 < length (tl batch) then [drop 0 (tl batch)] else [])"
    by (cases "tl batch") (simp_all add: s1 unfinished_def)
  have any_order: "\<exists>j \<le> length (tl batch).
        calls (resolve order s1) = first @ map Transport (take j (tl batch)) \<and>
        (unfinished (resolve order s1) = [] \<longleftrightarrow> j = length (tl batch))" for order
  proof -
    from c0 u0 obtain j where j: "j \<le> length (tl batch)"
      "calls (resolve order s1) = first @ map Transport (take j (tl batch))"
      "unfinished (resolve order s1) =
         (if j < length (tl batch) then [drop j (tl batch)] else [])"
      using resolve_progress [of 0 "tl batch" s1 first order] by auto
    from j(1,3) have "unfinished (resolve order s1) = [] \<longleftrightarrow> j = length (tl batch)"
      by auto
    with j(1,2) show ?thesis
      by (intro exI [of _ j]) simp
  qed
  have any_schedule: "\<exists>j \<le> length (tl batch).
        calls (settle_all schedule s1) = first @ map Transport (take j (tl batch))"
    for schedule
  proof -
    from u0 have "unfinished s1 = [] \<or>
        0 < length (tl batch) \<and> unfinished s1 = [drop 0 (tl batch)]"
      by (simp split: if_splits)
    from settle_all_progress [OF _ c0 this, of schedule]
    show ?thesis by auto
  qed
  have rejected: "settle 0 False ((settle 0 True ^^ k) s1) =
         s\<lparr> ready := True, pendingMessages := [], flushes := [[], []],
            calls := first @ map Transport (take k (tl batch)) \<rparr>"
    if k: "k \<le> length (tl batch)" for k
    by (cases "drop k (tl batch)") (simp_all add: run [OF k] settle_def)
  have dropped: "calls (settle_all schedule (settle 0 False ((settle 0 True ^^ k) s1))) =
            first @ map Transport (take k (tl batch))"
    if k: "k \<le> length (tl batch)" for k schedule
  proof -
    have "unfinished (settle 0 False ((settle 0 True ^^ k) s1)) = []"
      by (simp add: rejected [OF k] unfinished_def)
    from settle_all_nothing_left [OF this, of schedule] show ?thesis
      by (simp add: rejected [OF k])
  qed
  from posts run any_order any_schedule rejected dropped show ?thesis
    by blast
qed

theorem buffered_messages_delivered_in_order_witness:
  "init = run [] init \<and> \<not> ready init \<and> proceeds demo_env (demo_msg ''ready'') \<and>
   m_type (demo_msg ''ready'') = ''ready'' \<and>
   calls (fold postMessage [demo_out, demo_out] init) = [] \<and>
   transported (calls ((settle 0 True ^^ 2)
     (snd (handleMessages demo_env (demo_msg ''ready'')
        (fold postMessage [demo_out, demo_out] init))))) =
     [demo_out, config_msg demo_env, i18n_msg demo_env, demo_out, ready_ack] \<and>
   transported (calls (settle 0 False ((settle 0 True ^^ 1)
     (snd (handleMessages demo_env (demo_msg ''ready'')
        (fold postMessage [demo_out, demo_out] init)))))) =
     [demo_out, config_msg demo_env, i18n_msg demo_env, demo_out]"
proof -
  have h: "init = run [] init" "\<not> ready init" "proceeds demo_env (demo_msg ''ready'')"
    "m_type (demo_msg ''ready'') = ''ready''"
    by (simp_all add: run_def init_def proceeds_def hook_def demo_env_def demo_msg_def)
  have two: "(2::nat) \<le> length (tl (pendingMessages init @ [demo_out, demo_out] @ [ready_ack]))"
    "(1::nat) \<le> length (tl (pendingMessages init @ [demo_out, demo_out] @ [ready_ack]))"
    by (simp_all add: init_def)
  note t = buffered_messages_delivered_in_order
    [OF h refl refl refl, of "[demo_out, demo_out]"]
  note r1 = t [THEN conjunct1]
  note r2 = t [THEN conjunct2, THEN conjunct1, rule_format, OF two(1)]
  note r5 = t [THEN conjunct2, THEN conjunct2, THEN conjunct2, THEN conjunct2, rule_format,
    OF two(2), THEN conjunct1]
  from r1 r2 r5 h show ?thesis
    by (simp add: init_def)
qed

section \<open>The dispatcher\<close>

text \<open>
  Claim C2. The ready flag is false in the initial state. A step of the session leaves
  it true if it was true, and makes it true exactly when the step is \<^verbatim>\<open>handleMessages\<close>
  on a message of type \<^verbatim>\<open>ready\<close> that the extension hook did not intercept; no step
  sets it back to false. On that step the acknowledgement is queued first (behind
  whatever was buffered), then the \<^verbatim>\<open>config\<close> message, then the \<^verbatim>\<open>i18n\<close> message: each
  starts a delivery loop of its own, in that order.
\<close>

theorem ready_flag_set_once_by_ready_message:
  "ready init = False \<and>
   ready (step env op s) =
     (ready s \<or> (\<exists>m. op = HandleMessages m \<and> proceeds env m \<and> m_type m = ''ready'')) \<and>
   (proceeds env m \<and> m_type m = ''ready'' \<longrightarrow>
    handleMessages env m s =
     (Resolved,
      s\<lparr> ready := True, pendingMessages := [],
         flushes := flushes s @ [tl (pendingMessages s @ [ready_ack]), [], []],
         calls := calls s @ [Transport (hd (pendingMessages s @ [ready_ack])),
                             Transport (config_msg env), Transport (i18n_msg env)] \<rparr>))"
  by (simp add: init_def ready_step handleMessages_proceeds dispatch_ready)

theorem ready_flag_set_once_by_ready_message_witness:
  "proceeds demo_env (demo_msg ''ready'') \<and> m_type (demo_msg ''ready'') = ''ready'' \<and>
   ready (step demo_env (HandleMessages (demo_msg ''ready'')) init) \<and>
   \<not> ready (step demo_env (HandleMessages (demo_msg ''init'')) init) \<and>
   handleMessages demo_env (demo_msg ''ready'') init =
     (Resolved,
      init\<lparr> ready := True,
            flushes := [[], [], []],
            calls := [Transport ready_ack, Transport (config_msg demo_env),
                      Transport (i18n_msg demo_env)] \<rparr>)"
proof -
  have h: "proceeds demo_env (demo_msg ''ready'')" "m_type (demo_msg ''ready'') = ''ready''"
    by (simp_all add: proceeds_def hook_def demo_env_def demo_msg_def)
  have n: "m_type (demo_msg ''init'') \<noteq> ''ready''"
    by (simp add: demo_msg_def)
  show ?thesis
    using h n
      ready_flag_set_once_by_ready_message
        [of demo_env "HandleMessages (demo_msg ''ready'')" init "demo_msg ''ready''"]
      ready_flag_set_once_by_ready_message
        [of demo_env "HandleMessages (demo_msg ''init'')" init "demo_msg ''ready''"]
    by (auto simp: init_def)
qed

lemma reply_msg_id: "map_of (reply_msg m d) ''_id'' = Some (opt_num (m_id m))"
  by (simp add: reply_msg_def assign_def update_conv')

lemma dispatch_get_record:
  "m_type m = ''get_record'' \<Longrightarrow>
   dispatch env m s =
     (Resolved, postMessage (reply_msg m (getRecordByKey env (m_keypath m) (m_locale m))) s)"
  by (simp add: dispatch_def Let_def reply_def)

lemma dispatch_get_records:
  "m_type m = ''get_records'' \<Longrightarrow> m_items m = Some xs \<Longrightarrow>
   dispatch env m s =
     (Resolved,
      postMessage
        (reply_msg m (JArr (map (\<lambda>i. getRecordByKey env (m_keypath i) (m_locale i)) xs))) s)"
  by (simp add: dispatch_def Let_def reply_def)


text \<open>
  Claim C3. When the hook does not intercept it, a \<^verbatim>\<open>get_record\<close> message, and a
  \<^verbatim>\<open>get_records\<close> message that carries its list of items, makes \<^verbatim>\<open>handleMessages\<close> queue
  one reply \<open>r\<close>, built from the looked-up data by \<^verbatim>\<open>reply\<close>. The reply is in the session
  afterwards and nothing else is new there: when the session is not ready it is the last
  message of the queue, when the session is ready it closes the batch that is flushed.
  The property \<^verbatim>\<open>_id\<close> of the reply to a message with correlation id \<open>n\<close> is \<open>n\<close>,
  whatever the data. (Without items a \<^verbatim>\<open>get_records\<close> message raises a TypeError and queues
  no reply.)
\<close>

theorem reply_echoes_correlation_id:
  assumes "proceeds env m" and "m_id m = Some n"
    and "m_type m = ''get_record'' \<and> data = getRecordByKey env (m_keypath m) (m_locale m) \<or>
         m_type m = ''get_records'' \<and> m_items m = Some xs \<and>
           data = JArr (map (\<lambda>i. getRecordByKey env (m_keypath i) (m_locale i)) xs)"
    and "r = reply_msg m data"
    and "s' = snd (handleMessages env m s)"
  shows "handleMessages env m s = (Resolved, postMessage r s) \<and>
    map_of r ''_id'' = Some (JNum n) \<and>
    map_of (reply_msg m d) ''_id'' = Some (JNum n) \<and>
    held s' = insert r (held s) \<and>
    (\<not> ready s \<longrightarrow> s' = s\<lparr> pendingMessages := pendingMessages s @ [r] \<rparr>) \<and>
    (ready s \<longrightarrow>
     s' = s\<lparr> pendingMessages := [], flushes := flushes s @ [tl (pendingMessages s @ [r])],
            calls := calls s @ [Transport (hd (pendingMessages s @ [r]))] \<rparr>)"
proof -
  have h: "handleMessages env m s = (Resolved, postMessage r s)"
    using assms(1,3,4)
    by (auto simp: handleMessages_proceeds dispatch_get_record dispatch_get_records)
  then have s': "s' = postMessage r s"
    using assms(5) by simp
  have "map_of (reply_msg m d) ''_id'' = Some (JNum n)" for d
    using assms(2) by (simp add: reply_msg_id opt_num_def)
  with h s' assms(4) postMessage_cases [of s r] show ?thesis
    by (simp add: held_postMessage)
qed

theorem reply_echoes_correlation_id_witness:
  "proceeds demo_env (demo_msg ''get_record'') \<and> m_id (demo_msg ''get_record'') = Some 42 \<and>
   m_type (demo_msg ''get_record'') = ''get_record'' \<and>
   pendingMessages (snd (handleMessages demo_env (demo_msg ''get_record'') init)) =
     [reply_msg (demo_msg ''get_record'') demo_record] \<and>
   calls (snd (handleMessages demo_env (demo_msg ''get_record'') (init\<lparr> ready := True \<rparr>))) =
     [Transport (reply_msg (demo_msg ''get_record'') demo_record)] \<and>
   map_of (reply_msg (demo_msg ''get_record'') demo_record) ''_id'' = Some (JNum 42)"
proof -
  have h: "proceeds demo_env (demo_msg ''get_record'')" "m_id (demo_msg ''get_record'') = Some 42"
    by (simp_all add: proceeds_def hook_def demo_env_def demo_msg_def)
  have r: "m_type (demo_msg ''get_record'') = ''get_record'' \<and>
      demo_record = getRecordByKey demo_env (m_keypath (demo_msg ''get_record''))
        (m_locale (demo_msg ''get_record'')) \<or>
      m_type (demo_msg ''get_record'') = ''get_records'' \<and>
      m_items (demo_msg ''get_record'') = Some [] \<and>
      demo_record = JArr (map (\<lambda>i. getRecordByKey demo_env (m_keypath i) (m_locale i)) [])"
    by (simp add: demo_env_def demo_msg_def)
  have t: "m_type (demo_msg ''get_record'') = ''get_record''"
    by (simp add: demo_msg_def)
  note a = reply_echoes_correlation_id [OF h r refl refl, of init demo_record]
  note b = reply_echoes_correlation_id [OF h r refl refl, of "init\<lparr> ready := True \<rparr>"
    demo_record]
  have n: "\<not> ready init" and y: "ready (init\<lparr> ready := True \<rparr>)"
    by (simp_all add: init_def)
  note a2 = a [THEN conjunct2, THEN conjunct1]
  note a5 = a [THEN conjunct2, THEN conjunct2, THEN conjunct2, THEN conjunct2,
    THEN conjunct1, THEN mp, OF n]
  note b6 = b [THEN conjunct2, THEN conjunct2, THEN conjunct2, THEN conjunct2,
    THEN conjunct2, THEN mp, OF y]
  from a2 a5 b6 h t show ?thesis
    by (simp add: init_def)
qed

text \<open>
  Claim C9. When the extension hook resolves to \<^verbatim>\<open>true\<close> for a message,
  \<^verbatim>\<open>handleMessages\<close> returns at once: the session (ready flag, editing key, queue, mode,
  delivery loops) and the record of collaborator calls are as before.
\<close>

theorem hook_handled_no_builtin_behaviour:
  "extendHandler env = Some h \<Longrightarrow> h m = HookResolves (Some True) \<Longrightarrow>
   handleMessages env m s = (Resolved, s)"
  by (simp add: handleMessages_def hook_def)

theorem hook_handled_no_builtin_behaviour_witness:
  "extendHandler demo_env_hook = Some demo_hook \<and>
   demo_hook (demo_msg ''ready'') = HookResolves (Some True) \<and>
   handleMessages demo_env_hook (demo_msg ''ready'') init = (Resolved, init)"
proof -
  have h: "extendHandler demo_env_hook = Some demo_hook"
    "demo_hook (demo_msg ''ready'') = HookResolves (Some True)"
    by (simp_all add: demo_env_hook_def demo_hook_def demo_msg_def)
  show ?thesis
    using h hook_handled_no_builtin_behaviour [OF h, of init] by simp
qed

section \<open>Records and keys\<close>

lemma enrich_fields:
  "enrich env i =
     \<lparr> m_keypath = m_keypath i, m_locale = m_locale i, m_value = m_value i,
       filepath = opt_get (getRecordByKey env (m_keypath i) (m_locale i)) ''filepath'',
       namespace =
         opt_get (opt_get (getRecordByKey env (m_keypath i) (m_locale i)) ''meta'')
           ''namespace'' \<rparr>"
  by (simp add: enrich_def Let_def)

lemma dispatch_set_records:
  "m_type m = ''set_records'' \<Longrightarrow> m_items m = Some xs \<Longrightarrow>
   dispatch env m s = setRecords env xs s"
  by (simp add: dispatch_def Let_def)

lemma dispatch_set_record:
  "m_type m = ''set_record'' \<Longrightarrow> dispatch env m s = setRecords env [m] s"
  by (simp add: dispatch_def Let_def)

text \<open>
  Claim C4. \<^verbatim>\<open>setRecords\<close> makes one call to a collaborator, \<^verbatim>\<open>loader.write\<close>, and changes
  nothing else of the session. The argument of the call is the list of the items in
  their order, each with its \<^verbatim>\<open>keypath\<close>, \<^verbatim>\<open>locale\<close> and \<^verbatim>\<open>value\<close> and with \<^verbatim>\<open>filepath\<close> and
  \<^verbatim>\<open>namespace\<close> read from the record the loader answers for that keypath and locale. A
  \<^verbatim>\<open>set_records\<close> message does this for its items and a \<^verbatim>\<open>set_record\<close> message for itself
  (\<open>item.truncate m\<close> is the message \<open>m\<close> cut down to its keypath, locale and value);
  the promise of \<^verbatim>\<open>handleMessages\<close> settles as the promise of the write does, with no
  second attempt.
\<close>

theorem set_records_one_batched_write:
  assumes "proceeds env m"
    and "m_type m = ''set_records'' \<and> m_items m = Some xs \<or>
         m_type m = ''set_record'' \<and> xs = [item.truncate m]"
    and "ps = map (\<lambda>i. \<lparr> m_keypath = m_keypath i, m_locale = m_locale i, m_value = m_value i,
             filepath = opt_get (getRecordByKey env (m_keypath i) (m_locale i)) ''filepath'',
             namespace =
               opt_get (opt_get (getRecordByKey env (m_keypath i) (m_locale i)) ''meta'')
                 ''namespace'' \<rparr>) xs"
  shows "handleMessages env m s =
      (if loader_write env ps then Resolved else Rejected WriteError,
       s\<lparr> calls := calls s @ [LoaderWrite ps] \<rparr>)"
proof -
  have e: "enrich env (item.truncate m) = enrich env m"
    by (simp add: enrich_def item.truncate_def)
  have "ps = map (enrich env) xs"
    using assms(3) by (simp add: enrich_fields [abs_def])
  moreover have "handleMessages env m s = setRecords env xs s"
    using assms(1,2)
    by (auto simp: handleMessages_proceeds dispatch_set_records dispatch_set_record
        setRecords_eq e)
  ultimately show ?thesis
    by (simp add: setRecords_eq)
qed

theorem set_records_one_batched_write_witness:
  "proceeds demo_env (demo_msg ''set_records'') \<and>
   m_type (demo_msg ''set_records'') = ''set_records'' \<and>
   m_items (demo_msg ''set_records'') =
     Some [\<lparr> m_keypath = Some ''a.b'', m_locale = Some ''en'', m_value = Some ''X'' \<rparr>] \<and>
   handleMessages demo_env (demo_msg ''set_records'') init =
     (Resolved,
      init\<lparr> calls :=
        [LoaderWrite
           [\<lparr> m_keypath = Some ''a.b'', m_locale = Some ''en'', m_value = Some ''X'',
              filepath = JStr ''/locales/en.json'', namespace = JStr ''common'' \<rparr>]] \<rparr>) \<and>
   proceeds demo_env (demo_msg ''set_record'') \<and>
   m_type (demo_msg ''set_record'') = ''set_record'' \<and>
   handleMessages demo_env (demo_msg ''set_record'') init =
     (Resolved,
      init\<lparr> calls :=
        [LoaderWrite
           [\<lparr> m_keypath = Some ''a.b'', m_locale = Some ''en'', m_value = Some ''X'',
              filepath = JStr ''/locales/en.json'', namespace = JStr ''common'' \<rparr>]] \<rparr>)"
proof -
  have h: "proceeds demo_env (demo_msg ''set_records'')"
    "proceeds demo_env (demo_msg ''set_record'')"
    by (simp_all add: proceeds_def hook_def demo_env_def)
  have i: "m_type (demo_msg ''set_records'') = ''set_records'' \<and>
      m_items (demo_msg ''set_records'') =
        Some [\<lparr> m_keypath = Some ''a.b'', m_locale = Some ''en'', m_value = Some ''X'' \<rparr>] \<or>
      m_type (demo_msg ''set_records'') = ''set_record'' \<and>
      [\<lparr> m_keypath = Some ''a.b'', m_locale = Some ''en'', m_value = Some ''X'' \<rparr>] =
        [item.truncate (demo_msg ''set_records'')]"
    by (simp add: demo_msg_def)
  have j: "m_type (demo_msg ''set_record'') = ''set_records'' \<and>
      m_items (demo_msg ''set_record'') =
        Some [\<lparr> m_keypath = Some ''a.b'', m_locale = Some ''en'', m_value = Some ''X'' \<rparr>] \<or>
      m_type (demo_msg ''set_record'') = ''set_record'' \<and>
      [\<lparr> m_keypath = Some ''a.b'', m_locale = Some ''en'', m_value = Some ''X'' \<rparr>] =
        [item.truncate (demo_msg ''set_record'')]"
    by (simp add: demo_msg_def item.truncate_def)
  show ?thesis
    using h i
      set_records_one_batched_write [OF h(1) i refl, of init]
      set_records_one_batched_write [OF h(2) j refl, of init]
    by (simp add: demo_msg_def demo_env_def demo_record_def opt_get_def init_def)
qed

text \<open>
  Claim C10. A \<^verbatim>\<open>set_record\<close> message and a \<^verbatim>\<open>set_records\<close> message whose only item has
  the keypath, locale and value of the first are handled alike, provided the hook treats
  the two messages alike: the same result and the same session afterwards, and, when the
  switch is reached, the same single write call with the same enriched item.
\<close>

theorem set_record_is_singleton_set_records:
  assumes "hook env m1 = hook env m2"
    and "m_type m1 = ''set_record''" and "m_type m2 = ''set_records''"
    and "m_items m2 =
      Some [\<lparr> m_keypath = m_keypath m1, m_locale = m_locale m1, m_value = m_value m1 \<rparr>]"
  shows "handleMessages env m1 s = handleMessages env m2 s \<and>
    (proceeds env m1 \<longrightarrow>
       calls (snd (handleMessages env m2 s)) = calls s @ [LoaderWrite [enrich env m1]])"
proof -
  have e: "enrich env \<lparr> m_keypath = m_keypath m1, m_locale = m_locale m1,
      m_value = m_value m1 \<rparr> = enrich env m1"
    by (simp add: enrich_def)
  have d: "dispatch env m1 s = dispatch env m2 s"
    using assms(2-4) by (simp add: dispatch_set_record dispatch_set_records setRecords_eq e)
  have "handleMessages env m1 s = handleMessages env m2 s"
    using assms(1) d by (simp add: handleMessages_def split: hook_outcome.splits)
  moreover have "proceeds env m1 \<longrightarrow>
      calls (snd (handleMessages env m2 s)) = calls s @ [LoaderWrite [enrich env m1]]"
    using assms by (simp add: proceeds_def handleMessages_proceeds dispatch_set_records
        setRecords_eq e)
  ultimately show ?thesis by simp
qed

theorem set_record_is_singleton_set_records_witness:
  "hook demo_env (demo_msg ''set_record'') = hook demo_env (demo_msg ''set_records'') \<and>
   proceeds demo_env (demo_msg ''set_record'') \<and>
   handleMessages demo_env (demo_msg ''set_record'') init =
     handleMessages demo_env (demo_msg ''set_records'') init \<and>
   calls (snd (handleMessages demo_env (demo_msg ''set_records'') init)) =
     [LoaderWrite
        [\<lparr> m_keypath = Some ''a.b'', m_locale = Some ''en'', m_value = Some ''X'',
           filepath = JStr ''/locales/en.json'', namespace = JStr ''common'' \<rparr>]]"
proof -
  have h: "hook demo_env (demo_msg ''set_record'') = hook demo_env (demo_msg ''set_records'')"
    "m_type (demo_msg ''set_record'') = ''set_record''"
    "m_type (demo_msg ''set_records'') = ''set_records''"
    "m_items (demo_msg ''set_records'') =
      Some [\<lparr> m_keypath = m_keypath (demo_msg ''set_record''),
              m_locale = m_locale (demo_msg ''set_record''),
              m_value = m_value (demo_msg ''set_record'') \<rparr>]"
    by (simp_all add: hook_def demo_env_def demo_msg_def)
  have p: "proceeds demo_env (demo_msg ''set_record'')"
    by (simp add: proceeds_def hook_def demo_env_def)
  have e: "enrich demo_env (demo_msg ''set_record'') =
      \<lparr> m_keypath = Some ''a.b'', m_locale = Some ''en'', m_value = Some ''X'',
        filepath = JStr ''/locales/en.json'', namespace = JStr ''common'' \<rparr>"
    by (simp add: enrich_fields demo_msg_def demo_env_def demo_record_def opt_get_def)
  show ?thesis
    using h(1) p e set_record_is_singleton_set_records [OF h, of init]
    by (simp add: init_def)
qed

text \<open>
  Claim C5. When the loader answers no node for the keypath (a falsy value), \<^verbatim>\<open>openKey\<close>
  returns the session as it was: no \<^verbatim>\<open>route\<close> message, no context message, no call to
  a collaborator, the same editing key; there is no error to raise.
\<close>

theorem openKey_missing_is_noop:
  "\<not> truthy (getNodeByKey env keypath) \<Longrightarrow> openKey env keypath loc index s = s"
  by (simp add: openKey_def)

theorem openKey_missing_is_noop_witness:
  "\<not> truthy (getNodeByKey demo_env ''missing.key'') \<and>
   openKey demo_env ''missing.key'' (Some ''en'') (Some 0) init = init"
proof -
  have h: "\<not> truthy (getNodeByKey demo_env ''missing.key'')"
    by (simp add: demo_env_def)
  show ?thesis
    using h openKey_missing_is_noop [OF h, of "Some ''en''" "Some 0" init] by simp
qed

subsection \<open>Index names\<close>

lemma digit_cases:
  "(d::nat) < 10 \<Longrightarrow>
   d = 0 \<or> d = 1 \<or> d = 2 \<or> d = 3 \<or> d = 4 \<or> d = 5 \<or> d = 6 \<or> d = 7 \<or> d = 8 \<or> d = 9"
  by arith

lemma of_char_digit_char: "d < 10 \<Longrightarrow> of_char (digit_char d) = 48 + d"
  using digit_cases [of d] by (auto simp: digit_char_def)

lemma digit_char_in_digits: "d < 10 \<Longrightarrow> digit_char d \<in> set ''0123456789''"
  using digit_cases [of d] by (auto simp: digit_char_def)

lemma nat_of_string_of_nat: "nat_of_string (string_of_nat n) = n"
proof (induction n rule: string_of_nat.induct)
  case (1 n)
  show ?case
  proof (cases "n < 10")
    case True
    then show ?thesis
      by (subst string_of_nat.simps) (simp add: nat_of_string_def of_char_digit_char)
  next
    case False
    have "n mod 10 < 10" by simp
    with False 1 show ?thesis
      by (subst string_of_nat.simps) (simp add: nat_of_string_def of_char_digit_char)
  qed
qed

lemma inj_string_of_nat: "inj string_of_nat"
  by (rule inj_on_inverseI [where g = nat_of_string]) (rule nat_of_string_of_nat)

lemma string_of_nat_digits: "set (string_of_nat n) \<subseteq> set ''0123456789''"
proof (induction n rule: string_of_nat.induct)
  case (1 n)
  show ?case
  proof (cases "n < 10")
    case True
    then show ?thesis
      using digit_char_in_digits [of n] by (subst string_of_nat.simps) simp
  next
    case False
    have "n mod 10 < 10" by simp
    from digit_char_in_digits [OF this] False 1 show ?thesis
      by (subst string_of_nat.simps) simp
  qed
qed

lemma string_of_nat_not_id: "string_of_nat n \<noteq> ''_id''"
proof
  assume "string_of_nat n = ''_id''"
  with string_of_nat_digits [of n] show False by simp
qed

lemma index_names_distinct: "distinct (map string_of_nat [0..<n])"
  by (simp add: distinct_map inj_on_subset [OF inj_string_of_nat])

lemma spread_array_nth:
  assumes "i < length xs"
  shows "map_of (spread (JArr xs)) (string_of_nat i) = Some (xs ! i)"
proof -
  have "map_of (zip (map string_of_nat [0..<length xs]) xs)
      (map string_of_nat [0..<length xs] ! i) = Some (xs ! i)"
    using assms by (intro map_of_zip_nth) (simp_all add: index_names_distinct)
  then show ?thesis
    using assms by (simp add: spread_def)
qed

lemma spread_array_keys: "map fst (spread (JArr xs)) = map string_of_nat [0..<length xs]"
  by (simp add: spread_def)

lemma reply_msg_array_nth:
  "i < length xs \<Longrightarrow> map_of (reply_msg m (JArr xs)) (string_of_nat i) = Some (xs ! i)"
  by (simp add: reply_msg_def assign_def update_conv' string_of_nat_not_id spread_array_nth)

lemma reply_msg_array_keys:
  "map fst (reply_msg m (JArr xs)) = map string_of_nat [0..<length xs] @ [''_id'']"
proof -
  have "''_id'' \<notin> set (map string_of_nat [0..<length xs])"
    by (auto simp: string_of_nat_not_id [symmetric] simp del: upt.simps)
  then show ?thesis
    by (simp add: reply_msg_def assign_def update_keys spread_array_keys del: upt.simps)
qed

lemma string_of_nat_not_data: "string_of_nat n \<noteq> ''data''"
proof
  assume "string_of_nat n = ''data''"
  with string_of_nat_digits [of n] show False by simp
qed

lemma reply_msg_array_no_data: "map_of (reply_msg m (JArr xs)) ''data'' = None"
proof -
  have "''data'' \<notin> set (map fst (reply_msg m (JArr xs)))"
    unfolding reply_msg_array_keys
    by (auto simp: string_of_nat_not_data [symmetric] simp del: upt.simps)
  then show ?thesis
    by (simp add: map_of_eq_None_iff)
qed

text \<open>
  The claim C8 as written fails: the reply queued for a \<^verbatim>\<open>get_records\<close> message is not a
  list and carries no list under \<^verbatim>\<open>data\<close>. For two items it is an object with the
  properties \<open>0\<close>, \<open>1\<close> and \<^verbatim>\<open>_id\<close>.
\<close>

theorem get_records_reply_not_a_list_counterexample:
  "pendingMessages (snd (handleMessages demo_env (demo_msg2 ''get_records'') init)) =
     [[(''0'', demo_record), (''1'', JUndefined), (''_id'', JNum 42)]] \<and>
   map_of [(''0'', demo_record), (''1'', JUndefined), (''_id'', JNum 42)] ''data'' = None"
  by (simp add: handleMessages_def hook_def dispatch_def reply_def reply_msg_def assign_def
      spread_def postMessage_def opt_num_def string_of_nat.simps digit_char_def
      demo_env_def demo_msg2_def demo_msg_def init_def)

text \<open>
  Claim C8, amended. For a \<^verbatim>\<open>get_records\<close> message with the items \<open>xs\<close> that the hook does
  not intercept, \<^verbatim>\<open>handleMessages\<close> queues one reply \<open>r\<close>: the list of the loader's records
  for the keypath and locale of each item, spread into an object, with \<^verbatim>\<open>_id\<close> added. The
  reply is in the session afterwards and nothing else is new there (the last message of
  the queue when the session is not ready, the end of the flushed batch when it is). Its
  properties are the index names \<open>0\<close>, \<open>1\<close>, ... of the items, as many as there are
  items and in their order, followed by \<^verbatim>\<open>_id\<close>; the property named \<open>i\<close> is the record of
  the \<open>i\<close>-th item; there is no property \<^verbatim>\<open>data\<close>.
\<close>

theorem get_records_reply_in_input_order:
  assumes "proceeds env m" and "m_type m = ''get_records''" and "m_items m = Some xs"
    and "r = reply_msg m (JArr (map (\<lambda>i. getRecordByKey env (m_keypath i) (m_locale i)) xs))"
    and "s' = snd (handleMessages env m s)"
  shows "handleMessages env m s = (Resolved, postMessage r s) \<and>
    held s' = insert r (held s) \<and>
    (\<not> ready s \<longrightarrow> s' = s\<lparr> pendingMessages := pendingMessages s @ [r] \<rparr>) \<and>
    (ready s \<longrightarrow>
     s' = s\<lparr> pendingMessages := [], flushes := flushes s @ [tl (pendingMessages s @ [r])],
            calls := calls s @ [Transport (hd (pendingMessages s @ [r]))] \<rparr>) \<and>
    map fst r = map string_of_nat [0..<length xs] @ [''_id''] \<and>
    (\<forall>i < length xs.
       map_of r (string_of_nat i) =
         Some (getRecordByKey env (m_keypath (xs ! i)) (m_locale (xs ! i)))) \<and>
    map_of r ''_id'' = Some (opt_num (m_id m)) \<and>
    map_of r ''data'' = None"
proof -
  have h: "handleMessages env m s = (Resolved, postMessage r s)"
    using assms(1-4) by (simp add: handleMessages_proceeds dispatch_get_records)
  then have s': "s' = postMessage r s"
    using assms(5) by simp
  have "map fst r = map string_of_nat [0..<length xs] @ [''_id'']"
    using assms(4) by (simp add: reply_msg_array_keys del: upt.simps)
  moreover have "\<forall>i < length xs.
       map_of r (string_of_nat i) =
         Some (getRecordByKey env (m_keypath (xs ! i)) (m_locale (xs ! i)))"
    using assms(4) by (simp add: reply_msg_array_nth)
  moreover have "map_of r ''_id'' = Some (opt_num (m_id m))" "map_of r ''data'' = None"
    using assms(4) by (simp_all add: reply_msg_id reply_msg_array_no_data)
  ultimately show ?thesis
    using h s' postMessage_cases [of s r] by (simp add: held_postMessage del: upt.simps)
qed

theorem get_records_reply_in_input_order_witness:
  "proceeds demo_env (demo_msg2 ''get_records'') \<and>
   m_type (demo_msg2 ''get_records'') = ''get_records'' \<and>
   m_items (demo_msg2 ''get_records'') =
     Some [\<lparr> m_keypath = Some ''a.b'', m_locale = Some ''en'', m_value = None \<rparr>,
           \<lparr> m_keypath = Some ''c.d'', m_locale = Some ''fr'', m_value = None \<rparr>] \<and>
   pendingMessages (snd (handleMessages demo_env (demo_msg2 ''get_records'') init)) =
     [reply_msg (demo_msg2 ''get_records'') (JArr [demo_record, JUndefined])] \<and>
   calls (snd (handleMessages demo_env (demo_msg2 ''get_records'')
     (init\<lparr> ready := True \<rparr>))) =
     [Transport (reply_msg (demo_msg2 ''get_records'') (JArr [demo_record, JUndefined]))] \<and>
   map_of (reply_msg (demo_msg2 ''get_records'') (JArr [demo_record, JUndefined]))
     (string_of_nat 0) = Some demo_record \<and>
   map_of (reply_msg (demo_msg2 ''get_records'') (JArr [demo_record, JUndefined]))
     (string_of_nat 1) = Some JUndefined"
proof -
  have h: "proceeds demo_env (demo_msg2 ''get_records'')"
    "m_type (demo_msg2 ''get_records'') = ''get_records''"
    "m_items (demo_msg2 ''get_records'') =
     Some [\<lparr> m_keypath = Some ''a.b'', m_locale = Some ''en'', m_value = None \<rparr>,
           \<lparr> m_keypath = Some ''c.d'', m_locale = Some ''fr'', m_value = None \<rparr>]"
    by (simp_all add: proceeds_def hook_def demo_env_def demo_msg2_def demo_msg_def)
  have d: "reply_msg (demo_msg2 ''get_records'') (JArr [demo_record, JUndefined]) =
      reply_msg (demo_msg2 ''get_records'')
        (JArr (map (\<lambda>i. getRecordByKey demo_env (m_keypath i) (m_locale i))
          [\<lparr> m_keypath = Some ''a.b'', m_locale = Some ''en'', m_value = None \<rparr>,
           \<lparr> m_keypath = Some ''c.d'', m_locale = Some ''fr'', m_value = None \<rparr>]))"
    by (simp add: demo_env_def)
  have n: "\<not> ready init" and y: "ready (init\<lparr> ready := True \<rparr>)"
    by (simp_all add: init_def)
  note a = get_records_reply_in_input_order [OF h d refl, of init]
  note b = get_records_reply_in_input_order [OF h d refl, of "init\<lparr> ready := True \<rparr>"]
  note a3 = a [THEN conjunct2, THEN conjunct2, THEN conjunct1, THEN mp, OF n]
  note b4 = b [THEN conjunct2, THEN conjunct2, THEN conjunct2, THEN conjunct1, THEN mp, OF y]
  note a6 = a [THEN conjunct2, THEN conjunct2, THEN conjunct2, THEN conjunct2, THEN conjunct2,
    THEN conjunct1]
  have l: "(0::nat) < length [\<lparr> m_keypath = Some ''a.b'', m_locale = Some ''en'', m_value = None \<rparr>,
           \<lparr> m_keypath = Some ''c.d'', m_locale = Some ''fr'', m_value = None \<rparr>]"
    "(1::nat) < length [\<lparr> m_keypath = Some ''a.b'', m_locale = Some ''en'', m_value = None \<rparr>,
           \<lparr> m_keypath = Some ''c.d'', m_locale = Some ''fr'', m_value = None \<rparr>]"
    by simp_all
  from a3 b4 a6 [rule_format, OF l(1)] a6 [rule_format, OF l(2)] h show ?thesis
    by (simp add: init_def demo_env_def)
qed

section \<open>Editor context\<close>

text \<open>
  The claim C6 as written fails: with an active document of a supported language in
  which no key is detected, \<^verbatim>\<open>sendCurrentFileContext\<close> returns \<^verbatim>\<open>false\<close> and queues only
  the empty context of the standalone mode, no context with \<^verbatim>\<open>filepath\<close> and \<^verbatim>\<open>keys\<close>.
\<close>

theorem sendCurrentFileContext_no_keys_counterexample:
  "activeDocument demo_env = Some demo_doc \<and>
   isLanguageIdSupported demo_env (languageId demo_doc) \<and>
   sendCurrentFileContext demo_env init =
     (False, init\<lparr> pendingMessages := [context_msg (JObj [])] \<rparr>)"
  by (simp add: sendCurrentFileContext_def setContext_def context_msg_def postMessage_def
      demo_env_def demo_doc_def init_def)

text \<open>
  Claim C6, amended. In the standalone mode \<^verbatim>\<open>sendCurrentFileContext\<close> first queues a
  \<^verbatim>\<open>context\<close> message with empty data. Then, if no document is active, or the language
  of the active document is not supported, or no key is detected in it, it returns
  \<^verbatim>\<open>false\<close> with no further effect; otherwise it queues a \<^verbatim>\<open>context\<close> message with the
  path of the document and the detected keys, each with its current value, and returns
  \<^verbatim>\<open>true\<close>.
\<close>

theorem sendCurrentFileContext_behaviour:
  "(activeDocument env = None \<longrightarrow> sendCurrentFileContext env s = (False, baseline s)) \<and>
   (activeDocument env = Some doc \<and>
      (\<not> isLanguageIdSupported env (languageId doc) \<or> detected_keys env doc = []) \<longrightarrow>
    sendCurrentFileContext env s = (False, baseline s)) \<and>
   (activeDocument env = Some doc \<and> isLanguageIdSupported env (languageId doc) \<and>
      detected_keys env doc \<noteq> [] \<longrightarrow>
    sendCurrentFileContext env s =
      (True,
       postMessage
         (context_msg
            (JObj [ (''filepath'', JStr (fsPath doc)),
                    (''keys'', JArr (map (with_value env) (detected_keys env doc))) ]))
         (baseline s))) \<and>
   baseline s = (if mode s = Standalone then postMessage (context_msg (JObj [])) s else s)"
  by (simp add: sendCurrentFileContext_def Let_def setContext_eq baseline_def detected_keys_def
      with_value_def [abs_def])

theorem sendCurrentFileContext_behaviour_witness:
  "activeDocument demo_env_keys = Some demo_doc \<and>
   isLanguageIdSupported demo_env_keys (languageId demo_doc) \<and>
   detected_keys demo_env_keys demo_doc \<noteq> [] \<and>
   sendCurrentFileContext demo_env_keys init =
     (True,
      init\<lparr> pendingMessages :=
        [ context_msg (JObj []),
          context_msg
            (JObj [ (''filepath'', JStr ''/src/App.vue''),
                    (''keys'', JArr [JObj [(''key'', JStr ''a.b''), (''value'', JStr ''Hello'')]]) ]) ] \<rparr>) \<and>
   activeDocument demo_env = Some demo_doc \<and> detected_keys demo_env demo_doc = [] \<and>
   sendCurrentFileContext demo_env init =
     (False, init\<lparr> pendingMessages := [context_msg (JObj [])] \<rparr>)"
proof -
  have h: "activeDocument demo_env_keys = Some demo_doc"
    "isLanguageIdSupported demo_env_keys (languageId demo_doc)"
    "detected_keys demo_env_keys demo_doc \<noteq> []"
    "activeDocument demo_env = Some demo_doc" "detected_keys demo_env demo_doc = []"
    by (simp_all add: demo_env_keys_def demo_env_def demo_doc_def detected_keys_def)
  have k: "map (with_value demo_env_keys) (detected_keys demo_env_keys demo_doc) =
      [JObj [(''key'', JStr ''a.b''), (''value'', JStr ''Hello'')]]"
    by (simp add: with_value_def detected_keys_def demo_env_keys_def demo_env_def assign_def
        opt_get_def)
  have b: "baseline init = init\<lparr> pendingMessages := [context_msg (JObj [])] \<rparr>"
    by (simp add: baseline_def init_def postMessage_def)
  show ?thesis
    using h k b
      sendCurrentFileContext_behaviour [of demo_env_keys init demo_doc]
      sendCurrentFileContext_behaviour [of demo_env init demo_doc]
    by (simp add: postMessage_def init_def demo_doc_def)
qed

section \<open>The messages of a session\<close>



lemma held_editing_key [simp]: "held (s\<lparr> editing_key := k \<rparr>) = held s"
  by (simp add: held_def)

lemma held_mode [simp]: "held (s\<lparr> mode := v \<rparr>) = held s"
  by (simp add: held_def)

lemma held_ready [simp]: "held (s\<lparr> ready := b \<rparr>) = held s"
  by (simp add: held_def)





















end
